theory Spec2Isabelle
  imports Main "HOL-Library.Word" "HOL-Library.AList" "HOL-Library.Monad_Syntax"
begin

section \<open>Memory model\<close>

text \<open>
  The cache of \<^verbatim>\<open>LRUCache.cpp\<close> keeps its entries in heap-allocated nodes that are shared
  between a hand-written doubly linked list and a hash map of raw pointers. The model keeps
  that sharing: a pointer is an optional address (\<open>None\<close> is \<^verbatim>\<open>nullptr\<close>), the heap maps
  the addresses of the live nodes to their contents, and reading or writing through a null
  pointer or through a pointer to a freed node has no defined result.
  \<^verbatim>\<open>int\<close> is a 32-bit word, \<^verbatim>\<open>size_t\<close> a 64-bit word.
\<close>

type_synonym addr = nat
type_synonym ptr = "addr option"

record TwoWayListNode =
  node_key :: "32 word"
  node_value :: "32 word"
  node_prev :: ptr
  node_next :: ptr

type_synonym heap = "addr \<rightharpoonup> TwoWayListNode"

definition KEY_NOT_FOUND_RET_VAL :: "32 word" where
  "KEY_NOT_FOUND_RET_VAL = - 1"

text \<open>Reading \<^verbatim>\<open>*p\<close> and updating a field of \<^verbatim>\<open>*p\<close>; \<open>None\<close> is undefined behaviour.\<close>

definition deref :: "heap \<Rightarrow> ptr \<Rightarrow> TwoWayListNode option" where
  "deref h p = (case p of None \<Rightarrow> None | Some a \<Rightarrow> h a)"

definition store :: "heap \<Rightarrow> ptr \<Rightarrow> (TwoWayListNode \<Rightarrow> TwoWayListNode) \<Rightarrow> heap option" where
  "store h p f =
     (case p of None \<Rightarrow> None
      | Some a \<Rightarrow> (case h a of None \<Rightarrow> None | Some n \<Rightarrow> Some (h(a \<mapsto> f n))))"

text \<open>
  How a call ends: it returns a value, it throws (the state it leaves behind is kept), or
  its behaviour is undefined.
\<close>

datatype exn = InvalidCapacity | bad_alloc | std_exception

datatype ('a, 's) outcome = Returns 'a 's | Throws exn 's | Undefined

section \<open>\<^verbatim>\<open>LRUTwoWayList\<close>\<close>

record LRUTwoWayList =
  list_size :: "64 word"
  list_front :: ptr
  list_back :: ptr

definition LRUTwoWayList_ctor :: LRUTwoWayList where
  "LRUTwoWayList_ctor = \<lparr>list_size = 0, list_front = None, list_back = None\<rparr>"

text \<open>
  \<^verbatim>\<open>add_to_front\<close>. The first argument is what \<^verbatim>\<open>new TwoWayListNode(key, value)\<close> does:
  \<open>None\<close> when it throws \<^verbatim>\<open>std::bad_alloc\<close>, \<open>Some p\<close> when it returns the address \<open>p\<close>.
\<close>

definition add_to_front ::
  "ptr \<Rightarrow> 32 word \<Rightarrow> 32 word \<Rightarrow> heap \<times> LRUTwoWayList \<Rightarrow> (addr, heap \<times> LRUTwoWayList) outcome" where
  "add_to_front alloc key val hl =
     (case hl of (h, l) \<Rightarrow>
        (case alloc of
           None \<Rightarrow> Throws bad_alloc (h, l)
         | Some new_node \<Rightarrow>
             let h0 = h(new_node \<mapsto>
                        \<lparr>node_key = key, node_value = val, node_prev = None, node_next = None\<rparr>)
             in if list_front l = None \<and> list_back l = None
                then Returns new_node
                       (h0, l\<lparr>list_front := Some new_node, list_back := Some new_node,
                               list_size := list_size l + 1\<rparr>)
                else (case store h0 (Some new_node) (\<lambda>n. n\<lparr>node_next := list_front l\<rparr>) of
                        None \<Rightarrow> Undefined
                      | Some h1 \<Rightarrow>
                          (case store h1 (list_front l) (\<lambda>n. n\<lparr>node_prev := Some new_node\<rparr>) of
                             None \<Rightarrow> Undefined
                           | Some h2 \<Rightarrow>
                               Returns new_node
                                 (h2, l\<lparr>list_front := Some new_node,
                                        list_size := list_size l + 1\<rparr>)))))"

text \<open>
  \<^verbatim>\<open>move_to_front\<close>: every statement reads the heap the previous one left, so the model is
  also right where two of the pointers involved are equal.
\<close>

definition move_to_front :: "ptr \<Rightarrow> heap \<times> LRUTwoWayList \<Rightarrow> (heap \<times> LRUTwoWayList) option" where
  "move_to_front given_node hl =
     (case hl of (h, l) \<Rightarrow>
        if list_front l = given_node then Some (h, l)
        else do {
          (h1, l1) \<leftarrow>
            (if list_back l = given_node
             then do {
               b \<leftarrow> deref h (list_back l);
               let l' = l\<lparr>list_back := node_prev b\<rparr>;
               h' \<leftarrow> store h (list_back l') (\<lambda>n. n\<lparr>node_next := None\<rparr>);
               Some (h', l')
             }
             else do {
               g \<leftarrow> deref h given_node;
               h' \<leftarrow> store h (node_prev g) (\<lambda>n. n\<lparr>node_next := node_next g\<rparr>);
               g' \<leftarrow> deref h' given_node;
               h'' \<leftarrow> store h' (node_next g') (\<lambda>n. n\<lparr>node_prev := node_prev g'\<rparr>);
               Some (h'', l)
             });
          h2 \<leftarrow> store h1 given_node (\<lambda>n. n\<lparr>node_next := list_front l1\<rparr>);
          h3 \<leftarrow> store h2 given_node (\<lambda>n. n\<lparr>node_prev := None\<rparr>);
          h4 \<leftarrow> store h3 (list_front l1) (\<lambda>n. n\<lparr>node_prev := given_node\<rparr>);
          Some (h4, l1\<lparr>list_front := given_node\<rparr>)
        })"

section \<open>\<^verbatim>\<open>LRUCache\<close>\<close>

text \<open>
  The \<^verbatim>\<open>std::unordered_map\<close> is an association list with \<open>map_of\<close> for \<^verbatim>\<open>find\<close>,
  \<open>AList.delete\<close> for \<^verbatim>\<open>erase\<close> and \<open>AList.update\<close> for \<^verbatim>\<open>operator[]\<close> followed by an
  assignment. Of the container's own storage the model keeps one thing: adding an element
  allocates, and the allocation can fail (\<open>map_assign\<close> below).
\<close>

record LRUCache =
  m_capacity :: "32 word"
  lru_list :: LRUTwoWayList
  lru_cache_map :: "(32 word \<times> addr) list"

type_synonym world = "heap \<times> LRUCache"

definition LRUCache_ctor :: "32 word \<Rightarrow> exn + LRUCache" where
  "LRUCache_ctor capacity =
     (if capacity \<le>s 0 then Inl InvalidCapacity
      else Inr \<lparr>m_capacity = capacity, lru_list = LRUTwoWayList_ctor, lru_cache_map = []\<rparr>)"

definition get :: "32 word \<Rightarrow> world \<Rightarrow> (32 word, world) outcome" where
  "get key w =
     (case w of (h, c) \<Rightarrow>
        (case map_of (lru_cache_map c) key of
           None \<Rightarrow> Returns KEY_NOT_FOUND_RET_VAL (h, c)
         | Some p \<Rightarrow>
             (case move_to_front (Some p) (h, lru_list c) of
                None \<Rightarrow> Undefined
              | Some (h', l') \<Rightarrow>
                  (case h' p of
                     None \<Rightarrow> Undefined
                   | Some n \<Rightarrow> Returns (node_value n) (h', c\<lparr>lru_list := l'\<rparr>)))))"

text \<open>
  \<^verbatim>\<open>_lru_cache_map[key] = new_node\<close>: for a key the map does not have, \<^verbatim>\<open>operator[]\<close>
  allocates a new element of the map, and that allocation can throw \<^verbatim>\<open>std::bad_alloc\<close>; the
  map is then what it was. The first argument tells whether this allocation succeeds, and
  the result \<open>None\<close> is the throw; the argument is not looked at for a key the map has.
\<close>

definition map_assign ::
  "bool \<Rightarrow> 32 word \<Rightarrow> addr \<Rightarrow> (32 word \<times> addr) list \<Rightarrow> (32 word \<times> addr) list option" where
  "map_assign map_alloc key p m =
     (if map_of m key = None \<and> \<not> map_alloc then None else Some (AList.update key p m))"

text \<open>
  \<^verbatim>\<open>put\<close>. The first argument is the outcome of \<^verbatim>\<open>new TwoWayListNode\<close> and is passed on to
  \<open>add_to_front\<close>; the second is the outcome of the allocation inside the map at the last
  line, \<^verbatim>\<open>_lru_cache_map[key] = new_node\<close>. The path of a key that is in the map returns
  before any allocation and looks at neither. The handler \<^verbatim>\<open>catch(std::exception &except)\<close>
  rethrows with \<^verbatim>\<open>throw except;\<close>, which throws a copy of static type \<^verbatim>\<open>std::exception\<close>;
  the last line is outside the \<^verbatim>\<open>try\<close> block, so what it throws leaves \<^verbatim>\<open>put\<close> as it
  is, after the list and the map have been changed. In \<^verbatim>\<open>_lru_list.size() == _capacity\<close> the
  \<^verbatim>\<open>int\<close> is converted to \<^verbatim>\<open>size_t\<close>.
\<close>

definition put ::
  "ptr \<Rightarrow> bool \<Rightarrow> 32 word \<Rightarrow> 32 word \<Rightarrow> world \<Rightarrow> (unit, world) outcome" where
  "put alloc map_alloc key val w =
     (case w of (h, c) \<Rightarrow>
        (case map_of (lru_cache_map c) key of
           Some p \<Rightarrow>
             (case store h (Some p) (\<lambda>n. n\<lparr>node_value := val\<rparr>) of
                None \<Rightarrow> Undefined
              | Some h1 \<Rightarrow>
                  (case move_to_front (Some p) (h1, lru_list c) of
                     None \<Rightarrow> Undefined
                   | Some (h2, l2) \<Rightarrow> Returns () (h2, c\<lparr>lru_list := l2\<rparr>)))
         | None \<Rightarrow>
             if list_size (lru_list c) = scast (m_capacity c)
             then (case list_back (lru_list c) of
                     None \<Rightarrow> Undefined
                   | Some new_node \<Rightarrow>
                       (case h new_node of
                          None \<Rightarrow> Undefined
                        | Some victim \<Rightarrow>
                            let m1 = AList.delete (node_key victim) (lru_cache_map c);
                                h1 = h(new_node \<mapsto> victim\<lparr>node_key := key\<rparr>);
                                h2 = h1(new_node \<mapsto> victim\<lparr>node_key := key, node_value := val\<rparr>)
                            in (case move_to_front (Some new_node) (h2, lru_list c) of
                                  None \<Rightarrow> Undefined
                                | Some (h3, l3) \<Rightarrow>
                                    (case map_assign map_alloc key new_node m1 of
                                       None \<Rightarrow>
                                         Throws bad_alloc
                                           (h3, c\<lparr>lru_list := l3, lru_cache_map := m1\<rparr>)
                                     | Some m2 \<Rightarrow>
                                         Returns ()
                                           (h3, c\<lparr>lru_list := l3, lru_cache_map := m2\<rparr>)))))
             else (case add_to_front alloc key val (h, lru_list c) of
                     Throws e hl \<Rightarrow> Throws std_exception (fst hl, c\<lparr>lru_list := snd hl\<rparr>)
                   | Undefined \<Rightarrow> Undefined
                   | Returns new_node hl \<Rightarrow>
                       (case map_assign map_alloc key new_node (lru_cache_map c) of
                          None \<Rightarrow> Throws bad_alloc (fst hl, c\<lparr>lru_list := snd hl\<rparr>)
                        | Some m2 \<Rightarrow>
                            Returns ()
                              (fst hl, c\<lparr>lru_list := snd hl, lru_cache_map := m2\<rparr>)))))"

definition capacity :: "world \<Rightarrow> 64 word" where
  "capacity w = scast (m_capacity (snd w))"

definition size_cache :: "world \<Rightarrow> 64 word" where
  "size_cache w = list_size (lru_list (snd w))"

text \<open>
  \<^verbatim>\<open>clear\<close>: the loop deletes the node of every pair of the map (deleting a node that is
  not live is undefined), then the map is emptied. Nothing else is assigned.
\<close>

fun delete_nodes :: "(32 word \<times> addr) list \<Rightarrow> heap \<Rightarrow> heap option" where
  "delete_nodes [] h = Some h"
| "delete_nodes (kp # m) h =
     (case h (snd kp) of None \<Rightarrow> None | Some n \<Rightarrow> delete_nodes m (h(snd kp := None)))"

definition clear :: "world \<Rightarrow> (unit, world) outcome" where
  "clear w =
     (case w of (h, c) \<Rightarrow>
        (case delete_nodes (lru_cache_map c) h of
           None \<Rightarrow> Undefined
         | Some h' \<Rightarrow> Returns () (h', c\<lparr>lru_cache_map := []\<rparr>)))"

section \<open>Well-formed states\<close>

text \<open>
  \<open>dll h prv ps nxt\<close>: the nodes at the addresses \<open>ps\<close> are live and linked in this order,
  forwards and backwards; the first one has \<open>prv\<close> before it, the last one \<open>nxt\<close> after it.
\<close>

fun first_or :: "ptr \<Rightarrow> addr list \<Rightarrow> ptr" where
  "first_or d [] = d"
| "first_or d (p # ps) = Some p"

fun last_or :: "ptr \<Rightarrow> addr list \<Rightarrow> ptr" where
  "last_or d [] = d"
| "last_or d (p # ps) = last_or (Some p) ps"

fun dll :: "heap \<Rightarrow> ptr \<Rightarrow> addr list \<Rightarrow> ptr \<Rightarrow> bool" where
  "dll h prv [] nxt = True"
| "dll h prv (p # ps) nxt =
     (case h p of
        None \<Rightarrow> False
      | Some n \<Rightarrow> node_prev n = prv \<and> node_next n = first_or nxt ps \<and> dll h (Some p) ps nxt)"

text \<open>
  \<open>list_inv ps (h, l)\<close>: the list object \<open>l\<close> holds exactly the nodes \<open>ps\<close>, front to back.
\<close>

definition list_inv :: "addr list \<Rightarrow> heap \<times> LRUTwoWayList \<Rightarrow> bool" where
  "list_inv ps hl =
     (case hl of (h, l) \<Rightarrow>
        distinct ps \<and> dll h None ps None \<and>
        list_front l = first_or None ps \<and> list_back l = last_or None ps \<and>
        unat (list_size l) = length ps)"

definition keyed :: "heap \<Rightarrow> 32 word \<times> addr \<Rightarrow> bool" where
  "keyed h kp = (case h (snd kp) of None \<Rightarrow> False | Some n \<Rightarrow> node_key n = fst kp)"

text \<open>
  \<open>cache_inv ps w\<close> is the global invariant of the cache, with \<open>ps\<close> the recency order:
  the index has as many keys as the list has entries, at most the capacity; every key of the
  index maps to an entry of the list that bears this key; every entry of the list is the
  image of a key of the index.
\<close>

definition cache_inv :: "addr list \<Rightarrow> world \<Rightarrow> bool" where
  "cache_inv ps w =
     (case w of (h, c) \<Rightarrow>
        list_inv ps (h, lru_list c) \<and>
        0 <s m_capacity c \<and> length ps \<le> nat (sint (m_capacity c)) \<and>
        distinct (map fst (lru_cache_map c)) \<and>
        length (lru_cache_map c) = length ps \<and>
        set (map snd (lru_cache_map c)) = set ps \<and>
        list_all (keyed h) (lru_cache_map c))"

text \<open>The key and the value of a node, without its links.\<close>

definition payload :: "TwoWayListNode \<Rightarrow> 32 word \<times> 32 word" where
  "payload n = (node_key n, node_value n)"

text \<open>
  \<open>same_payload h h'\<close>: the two heaps have the same live nodes, with the same keys and
  values; only links may differ.
\<close>

definition same_payload :: "heap \<Rightarrow> heap \<Rightarrow> bool" where
  "same_payload h h' = (\<forall>q. map_option payload (h' q) = map_option payload (h q))"

section \<open>Call sequences\<close>

text \<open>
  A sequence of \<^verbatim>\<open>put\<close> and \<^verbatim>\<open>get\<close> calls on one cache, as the test functions of the file
  make them. \<open>run\<close> collects what the \<^verbatim>\<open>get\<close> calls return and stops at the first call
  that does not return. \<open>TEST_LOGGED\<close> is the sequence of the function of that name, with
  the outcomes of the two allocations of each of its four \<^verbatim>\<open>put\<close> calls as arguments.
\<close>

datatype op = Put ptr bool "32 word" "32 word" | Get "32 word"

fun run :: "op list \<Rightarrow> world \<Rightarrow> (32 word list \<times> world) option" where
  "run [] w = Some ([], w)"
| "run (Put a m k v # ops) w =
     (case put a m k v w of Returns u w' \<Rightarrow> run ops w' | Throws e w' \<Rightarrow> None | Undefined \<Rightarrow> None)"
| "run (Get k # ops) w =
     (case get k w of
        Returns r w' \<Rightarrow> (case run ops w' of None \<Rightarrow> None | Some (rs, w'') \<Rightarrow> Some (r # rs, w''))
      | Throws e w' \<Rightarrow> None
      | Undefined \<Rightarrow> None)"

definition TEST_LOGGED ::
  "ptr \<Rightarrow> bool \<Rightarrow> ptr \<Rightarrow> bool \<Rightarrow> ptr \<Rightarrow> bool \<Rightarrow> ptr \<Rightarrow> bool \<Rightarrow> world \<Rightarrow>
     (32 word list \<times> world) option" where
  "TEST_LOGGED a1 m1 a2 m2 a3 m3 a4 m4 w =
     run [Put a1 m1 1 1, Put a2 m2 2 2, Get 1, Put a3 m3 3 3, Get 2, Put a4 m4 4 4,
          Get 1, Get 3, Get 4] w"

text \<open>
  A cache with two entries and the capacity \<open>cap\<close>: what \<^verbatim>\<open>put(1, 10); put(2, 20)\<close> leaves
  when the two nodes are allocated at the addresses 0 and 1 (lemmas \<open>demo_built\<close> and
  \<open>demo_built3\<close> below).
\<close>

definition demo_heap :: heap where
  "demo_heap = [0 \<mapsto> \<lparr>node_key = 1, node_value = 10, node_prev = Some 1, node_next = None\<rparr>,
                1 \<mapsto> \<lparr>node_key = 2, node_value = 20, node_prev = None, node_next = Some 0\<rparr>]"

definition demo_cache :: "32 word \<Rightarrow> LRUCache" where
  "demo_cache cap = \<lparr>m_capacity = cap,
                 lru_list = \<lparr>list_size = 2, list_front = Some 1, list_back = Some 0\<rparr>,
                 lru_cache_map = [(1, 0), (2, 1)]\<rparr>"

section \<open>Reachable states\<close>

text \<open>
  The states that a new cache reaches through \<^verbatim>\<open>get\<close> and through the calls of \<^verbatim>\<open>put\<close>
  that return, where an allocation returns an address that holds no live node. The state
  that \<^verbatim>\<open>put\<close> leaves when the allocation of the node fails is reachable too. Two kinds of
  states are left out, each described in its own section: what \<^verbatim>\<open>clear\<close> leaves, and what
  \<^verbatim>\<open>put\<close> leaves when the allocation inside the map fails.
\<close>

inductive reachable :: "world \<Rightarrow> bool" where
  constructed: "LRUCache_ctor cap = Inr c \<Longrightarrow> reachable (h, c)"
| after_get: "reachable w \<Longrightarrow> get k w = Returns r w' \<Longrightarrow> reachable w'"
| after_put:
    "reachable (h, c) \<Longrightarrow> \<forall>p. a = Some p \<longrightarrow> h p = None \<Longrightarrow>
     put a m k v (h, c) = Returns u w' \<Longrightarrow> reachable w'"
| after_throw: "reachable w \<Longrightarrow> put None m k v w = Throws std_exception w' \<Longrightarrow> reachable w'"

section \<open>Linked lists in the heap\<close>

lemma first_or_append [simp]: "first_or d (xs @ ys) = first_or (first_or d ys) xs"
  by (cases xs) simp_all

lemma last_or_append [simp]: "last_or d (xs @ ys) = last_or (last_or d xs) ys"
  by (induction xs arbitrary: d) simp_all

lemma dll_Cons_iff:
  "dll h prv (p # ps) nxt \<longleftrightarrow>
     (\<exists>n. h p = Some n \<and> node_prev n = prv \<and> node_next n = first_or nxt ps) \<and> dll h (Some p) ps nxt"
  by (simp split: option.splits)

declare dll.simps(2) [simp del]

lemma dll_append:
  "dll h prv (xs @ ys) nxt = (dll h prv xs (first_or nxt ys) \<and> dll h (last_or prv xs) ys nxt)"
  by (induction xs arbitrary: prv) (auto simp: dll_Cons_iff)

lemma dll_frame: "a \<notin> set ps \<Longrightarrow> dll (h(a := v)) prv ps nxt = dll h prv ps nxt"
  by (induction ps arbitrary: prv) (auto simp: dll_Cons_iff)

lemma dll_live: "dll h prv ps nxt \<Longrightarrow> p \<in> set ps \<Longrightarrow> \<exists>n. h p = Some n"
  by (induction ps arbitrary: prv) (auto simp: dll_Cons_iff)

lemma move_to_front_front:
  "list_inv (p # ys) (h, l) \<Longrightarrow> move_to_front (Some p) (h, l) = Some (h, l)"
  by (simp add: move_to_front_def list_inv_def)

lemma sint_32_bound: "sint (c :: 32 word) < 2 ^ 31"
  using sint_lt [of c] by simp

lemma unat_scast_capacity:
  fixes c :: "32 word"
  assumes "0 <s c"
  shows "unat (scast c :: 64 word) = nat (sint c)"
proof -
  from assms have pos: "0 < sint c" by (simp add: word_sless_alt)
  have "sint c < 2 ^ 31" by (rule sint_32_bound)
  then have "sint c < 2 ^ 64" by simp
  with pos have m: "sint c mod 2 ^ 64 = sint c" by simp
  have "unat (scast c :: 64 word) = nat (uint (word_of_int (sint c) :: 64 word))"
    by (simp only: scast_eq unat_eq_nat_uint)
  also have "\<dots> = nat (sint c mod 2 ^ 64)"
    by (simp only: uint_word_of_int len_num0 len_num1 len_bit0 len_bit1 mult_2 one_add_one) simp
  finally show ?thesis using m by simp
qed

lemma unat_size_incr:
  fixes s :: "64 word"
  assumes "unat s < 2 ^ 31"
  shows "unat (s + 1) = Suc (unat s)"
proof -
  from assms have "unat s + unat (1 :: 64 word) < 2 ^ LENGTH(64)" by simp
  then have "unat (s + 1) = unat s + unat (1 :: 64 word)" by (simp only: unat_add_lem)
  then show ?thesis by simp
qed

section \<open>\<^verbatim>\<open>move_to_front\<close> and \<^verbatim>\<open>add_to_front\<close> on a well-formed list\<close>

lemmas mtf_defs = move_to_front_def deref_def store_def list_inv_def payload_def same_payload_def
            dll_append dll_frame dll_Cons_iff

lemma move_to_front_back:
  assumes "list_inv (x # xs @ [p]) (h, l)"
  shows "\<exists>h' l'. move_to_front (Some p) (h, l) = Some (h', l') \<and> list_inv (p # x # xs) (h', l')
     \<and> list_size l' = list_size l
     \<and> same_payload h h'
     \<and> (\<forall>q. q \<notin> set (x # xs @ [p]) \<longrightarrow> h' q = h q)"
proof -
  from assms have d: "distinct (x # xs @ [p])" and fr: "list_front l = Some x"
    and bk: "list_back l = Some p" and dl: "dll h None (x # xs @ [p]) None"
    and sz: "unat (list_size l) = Suc (Suc (length xs))"
    by (simp_all add: list_inv_def)
  show ?thesis
  proof (cases xs rule: rev_cases)
    case Nil
    from dl Nil obtain nx np where
      "h x = Some nx" "node_prev nx = None" "node_next nx = Some p"
      "h p = Some np" "node_prev np = Some x" "node_next np = None"
      by (auto simp: dll_Cons_iff)
    then show ?thesis using d fr bk Nil sz
      by (simp add: mtf_defs)
  next
    case (snoc xs' z)
    from dl snoc obtain nx nz np where
      "h x = Some nx" "node_prev nx = None" "node_next nx = first_or (Some z) xs'"
      "h z = Some nz" "node_prev nz = last_or (Some x) xs'"  "node_next nz = Some p"
      "h p = Some np" "node_prev np = Some z" "node_next np = None"
      and mid: "dll h (Some x) xs' (Some z)"
      by (auto simp: dll_Cons_iff dll_append)
    then show ?thesis using d fr bk snoc sz
      by (simp add: mtf_defs)
  qed
qed

lemma move_to_front_inner:
  assumes "list_inv (x # xs @ p # y # ys) (h, l)"
  shows "\<exists>h' l'. move_to_front (Some p) (h, l) = Some (h', l') \<and> list_inv (p # x # xs @ y # ys) (h', l')
     \<and> list_size l' = list_size l
     \<and> same_payload h h'
     \<and> (\<forall>q. q \<notin> set (x # xs @ p # y # ys) \<longrightarrow> h' q = h q)"
proof -
  from assms have d: "distinct (x # xs @ p # y # ys)" and fr: "list_front l = Some x"
    and bk: "list_back l = last_or (Some y) ys" and dl: "dll h None (x # xs @ p # y # ys) None"
    and sz: "unat (list_size l) = Suc (Suc (Suc (length xs + length ys)))"
    by (simp_all add: list_inv_def)
  from d have bk': "list_back l \<noteq> Some p" unfolding bk
    by (induction ys arbitrary: y) auto
  show ?thesis
  proof (cases xs rule: rev_cases)
    case Nil
    from dl Nil obtain nx np ny where
      "h x = Some nx" "node_prev nx = None" "node_next nx = Some p"
      "h p = Some np" "node_prev np = Some x" "node_next np = Some y"
      "h y = Some ny" "node_prev ny = Some p" "node_next ny = first_or None ys"
      and "dll h (Some y) ys None"
      by (auto simp: dll_Cons_iff)
    then show ?thesis using d fr bk bk' Nil sz
      by (simp add: mtf_defs)
  next
    case (snoc xs' z)
    from dl snoc obtain nx nz np ny where
      "h x = Some nx" "node_prev nx = None" "node_next nx = first_or (Some z) xs'"
      "h z = Some nz" "node_prev nz = last_or (Some x) xs'"  "node_next nz = Some p"
      "h p = Some np" "node_prev np = Some z" "node_next np = Some y"
      "h y = Some ny" "node_prev ny = Some p" "node_next ny = first_or None ys"
      and "dll h (Some x) xs' (Some z)" "dll h (Some y) ys None"
      by (auto simp: dll_Cons_iff dll_append)
    then show ?thesis using d fr bk bk' snoc sz
      by (simp add: mtf_defs)
  qed
qed

lemma move_to_front_ok:
  assumes inv: "list_inv ps (h, l)" and mem: "p \<in> set ps"
  shows "\<exists>h' l'. move_to_front (Some p) (h, l) = Some (h', l') \<and>
           list_inv (p # remove1 p ps) (h', l') \<and> list_size l' = list_size l \<and>
           same_payload h h' \<and> (\<forall>q. q \<notin> set ps \<longrightarrow> h' q = h q)"
proof -
  from mem obtain xs ys where ps: "ps = xs @ p # ys" and nin: "p \<notin> set xs"
    by (auto dest: split_list_first)
  have rm: "remove1 p ps = xs @ ys"
    using nin by (simp add: ps remove1_append)
  show ?thesis
  proof (cases xs)
    case Nil
    with inv ps rm show ?thesis
      by (simp add: move_to_front_front same_payload_def)
  next
    case (Cons x xs')
    show ?thesis
    proof (cases ys)
      case Nil
      with inv ps rm Cons move_to_front_back [of x xs' p h l] show ?thesis by simp
    next
      case (Cons y ys')
      with inv ps rm \<open>xs = x # xs'\<close> move_to_front_inner [of x xs' p y ys' h l] show ?thesis by simp
    qed
  qed
qed

section \<open>The cache operations on a well-formed state\<close>

lemma same_payload_refl [simp]: "same_payload h h"
  by (simp add: same_payload_def)

lemma same_payload_at:
  assumes "same_payload h h'"
  shows "map_option payload (h' q) = map_option payload (h q)"
  using assms by (simp add: same_payload_def)

lemma same_payload_live:
  assumes sp: "same_payload h h'" and n: "h p = Some n"
  shows "\<exists>n'. h' p = Some n' \<and> node_key n' = node_key n \<and> node_value n' = node_value n"
proof -
  from same_payload_at [OF sp, of p] n obtain n' where "h' p = Some n'" "payload n' = payload n"
    by auto
  then show ?thesis by (simp add: payload_def)
qed

lemma same_payload_dom:
  assumes sp: "same_payload h h'"
  shows "dom h' = dom h"
proof -
  have "(h' q = None) = (h q = None)" for q
    using same_payload_at [OF sp, of q] by (cases "h q"; cases "h' q") simp_all
  then show ?thesis by (auto simp: dom_def)
qed

lemma same_payload_keyed:
  assumes sp: "same_payload h h'"
  shows "keyed h' kp = keyed h kp"
  using same_payload_at [OF sp, of "snd kp"]
  by (cases "h (snd kp)"; cases "h' (snd kp)") (auto simp: keyed_def payload_def)

lemma index_inj:
  assumes "length m = length ps" "set (map snd m) = set ps" "distinct ps"
  shows "distinct (map snd m)"
proof -
  have "card (set (map snd m)) = length (map snd m)"
    using assms by (simp add: distinct_card)
  then show ?thesis by (rule card_distinct)
qed

lemma index_in_list:
  "cache_inv ps (h, c) \<Longrightarrow> map_of (lru_cache_map c) k = Some p \<Longrightarrow> p \<in> set ps"
  by (auto simp: cache_inv_def dest!: map_of_SomeD) (metis image_eqI snd_conv set_map)

lemma index_keyed:
  "list_all (keyed h) m \<Longrightarrow> map_of m k = Some p \<Longrightarrow> \<exists>n. h p = Some n \<and> node_key n = k"
  by (auto simp: list_all_iff keyed_def dest!: map_of_SomeD split: option.splits)

text \<open>
  The invariant in the words of the data model: a key of the index maps to a node of the list
  that bears this key, and a node of the list is the image of its own key.
\<close>

lemma cache_inv_index_to_list:
  assumes "cache_inv ps (h, c)" and "map_of (lru_cache_map c) k = Some p"
  shows "p \<in> set ps \<and> (\<exists>n. h p = Some n \<and> node_key n = k)"
  using assms index_in_list [OF assms] by (auto simp: cache_inv_def dest: index_keyed)

lemma cache_inv_list_to_index:
  assumes inv: "cache_inv ps (h, c)" and mem: "p \<in> set ps"
  shows "\<exists>n. h p = Some n \<and> map_of (lru_cache_map c) (node_key n) = Some p"
proof -
  from inv mem obtain k where k: "(k, p) \<in> set (lru_cache_map c)"
    by (force simp: cache_inv_def)
  from inv have "distinct (map fst (lru_cache_map c))" by (simp add: cache_inv_def)
  with k have m: "map_of (lru_cache_map c) k = Some p" by simp
  from inv m obtain n where "h p = Some n" "node_key n = k"
    by (auto simp: cache_inv_def dest: index_keyed)
  with m show ?thesis by simp
qed

lemma cache_inv_sizes:
  assumes "cache_inv ps (h, c)"
  shows "length (lru_cache_map c) = length ps \<and> unat (size_cache (h, c)) = length ps \<and>
         unat (size_cache (h, c)) \<le> unat (capacity (h, c))"
proof -
  from assms have "0 <s m_capacity c" by (simp add: cache_inv_def)
  from unat_scast_capacity [OF this] assms show ?thesis
    by (simp add: cache_inv_def list_inv_def size_cache_def capacity_def)
qed

lemma get_hit:
  assumes inv: "cache_inv ps (h, c)" and hit: "map_of (lru_cache_map c) k = Some p"
  shows "\<exists>n h' c'. h p = Some n \<and> node_key n = k \<and>
           get k (h, c) = Returns (node_value n) (h', c') \<and>
           cache_inv (p # remove1 p ps) (h', c') \<and>
           lru_cache_map c' = lru_cache_map c \<and> m_capacity c' = m_capacity c \<and>
           list_size (lru_list c') = list_size (lru_list c) \<and> same_payload h h' \<and>
           (\<forall>q. q \<notin> set ps \<longrightarrow> h' q = h q)"
proof -
  from inv hit have mem: "p \<in> set ps" by (rule index_in_list)
  from inv have li: "list_inv ps (h, lru_list c)" by (simp add: cache_inv_def)
  from inv hit obtain n where n: "h p = Some n" "node_key n = k"
    by (auto simp: cache_inv_def dest: index_keyed)
  from move_to_front_ok [OF li mem] obtain h' l' where
    mv: "move_to_front (Some p) (h, lru_list c) = Some (h', l')"
    and li': "list_inv (p # remove1 p ps) (h', l')"
    and sz: "list_size l' = list_size (lru_list c)"
    and sp: "same_payload h h'" and fr: "\<forall>q. q \<notin> set ps \<longrightarrow> h' q = h q"
    by blast
  from same_payload_live [OF sp n(1)] obtain n' where
    n': "h' p = Some n'" "node_value n' = node_value n" by blast
  have d: "distinct ps" using li by (simp add: list_inv_def)
  have "cache_inv (p # remove1 p ps) (h', c\<lparr>lru_list := l'\<rparr>)"
    using inv li' mem d length_pos_if_in_set [OF mem]
    by (auto simp: cache_inv_def length_remove1 list_all_iff same_payload_keyed [OF sp]
          simp flip: set_map)
  then show ?thesis
    using n n' mv sz sp fr hit
    by (intro exI [of _ n] exI [of _ h'] exI [of _ "c\<lparr>lru_list := l'\<rparr>"]) (simp add: get_def)
qed

lemma dll_payload_upd:
  assumes "h p = Some n" "node_prev n' = node_prev n" "node_next n' = node_next n"
  shows "dll (h(p \<mapsto> n')) prv ps nxt = dll h prv ps nxt"
  using assms by (induction ps arbitrary: prv) (auto simp: dll_Cons_iff)

lemma touch:
  assumes inv: "cache_inv ps (h, c)" and mem: "p \<in> set ps"
  shows "\<exists>h' l'. move_to_front (Some p) (h, lru_list c) = Some (h', l') \<and>
           cache_inv (p # remove1 p ps) (h', c\<lparr>lru_list := l'\<rparr>) \<and>
           list_size l' = list_size (lru_list c) \<and> same_payload h h' \<and>
           (\<forall>q. q \<notin> set ps \<longrightarrow> h' q = h q)"
proof -
  from inv have li: "list_inv ps (h, lru_list c)" by (simp add: cache_inv_def)
  from move_to_front_ok [OF li mem] obtain h' l' where
    mv: "move_to_front (Some p) (h, lru_list c) = Some (h', l')"
    and li': "list_inv (p # remove1 p ps) (h', l')"
    and sz: "list_size l' = list_size (lru_list c)"
    and sp: "same_payload h h'" and fr: "\<forall>q. q \<notin> set ps \<longrightarrow> h' q = h q"
    by blast
  have d: "distinct ps" using li by (simp add: list_inv_def)
  have "cache_inv (p # remove1 p ps) (h', c\<lparr>lru_list := l'\<rparr>)"
    using inv li' mem d length_pos_if_in_set [OF mem]
    by (auto simp: cache_inv_def length_remove1 list_all_iff same_payload_keyed [OF sp]
          simp flip: set_map)
  with mv sz sp fr show ?thesis by blast
qed

lemma cache_inv_value_upd:
  assumes inv: "cache_inv ps (h, c)" and n: "h p = Some n"
  shows "cache_inv ps (h(p \<mapsto> n\<lparr>node_value := v\<rparr>), c)"
  using assms
  by (auto simp: cache_inv_def list_inv_def dll_payload_upd list_all_iff keyed_def)

lemma put_hit:
  assumes inv: "cache_inv ps (h, c)" and hit: "map_of (lru_cache_map c) k = Some p"
  shows "\<exists>n h' c'. h p = Some n \<and> node_key n = k \<and>
           put a m k v (h, c) = Returns () (h', c') \<and>
           cache_inv (p # remove1 p ps) (h', c') \<and>
           lru_cache_map c' = lru_cache_map c \<and> m_capacity c' = m_capacity c \<and>
           list_size (lru_list c') = list_size (lru_list c) \<and>
           same_payload (h(p \<mapsto> n\<lparr>node_value := v\<rparr>)) h' \<and>
           (\<forall>q. q \<notin> set ps \<longrightarrow> h' q = h q)"
proof -
  from inv hit have mem: "p \<in> set ps" by (rule index_in_list)
  from inv hit obtain n where n: "h p = Some n" "node_key n = k"
    by (auto simp: cache_inv_def dest: index_keyed)
  let ?h1 = "h(p \<mapsto> n\<lparr>node_value := v\<rparr>)"
  have inv1: "cache_inv ps (?h1, c)" using inv n(1) by (rule cache_inv_value_upd)
  from touch [OF inv1 mem] obtain h' l' where
    mv: "move_to_front (Some p) (?h1, lru_list c) = Some (h', l')"
    and inv': "cache_inv (p # remove1 p ps) (h', c\<lparr>lru_list := l'\<rparr>)"
    and sz: "list_size l' = list_size (lru_list c)"
    and sp: "same_payload ?h1 h'" and fr: "\<forall>q. q \<notin> set ps \<longrightarrow> h' q = ?h1 q"
    by blast
  from fr mem have fr': "\<forall>q. q \<notin> set ps \<longrightarrow> h' q = h q" by auto
  show ?thesis
    using n mv inv' sz sp fr' hit
    by (intro exI [of _ n] exI [of _ h'] exI [of _ "c\<lparr>lru_list := l'\<rparr>"])
       (simp add: put_def store_def)
qed

lemma remove1_last: "distinct ps \<Longrightarrow> ps \<noteq> [] \<Longrightarrow> remove1 (last ps) ps = butlast ps"
proof (induction ps rule: rev_induct)
  case Nil
  then show ?case by simp
next
  case (snoc x xs)
  then show ?case by (simp add: remove1_append)
qed


lemma update_absent: "k \<notin> fst ` set al \<Longrightarrow> AList.update k v al = al @ [(k, v)]"
  by (induction al) auto

lemma delete_present:
  assumes "distinct (map fst (m1 @ (k, v) # m2))"
  shows "AList.delete k (m1 @ (k, v) # m2) = m1 @ m2"
  using assms by (induction m1) auto

lemma last_or_last: "ps \<noteq> [] \<Longrightarrow> last_or d ps = Some (last ps)"
  by (induction ps arbitrary: d) auto

lemma full_nonempty:
  assumes inv: "cache_inv ps (h, c)" and full: "list_size (lru_list c) = scast (m_capacity c)"
  shows "length ps = nat (sint (m_capacity c))" and "ps \<noteq> []"
proof -
  from inv have pos: "0 <s m_capacity c" and sz: "unat (list_size (lru_list c)) = length ps"
    by (simp_all add: cache_inv_def list_inv_def)
  from sz full unat_scast_capacity [OF pos] show len: "length ps = nat (sint (m_capacity c))"
    by simp
  from pos have "0 < sint (m_capacity c)" by (simp add: word_sless_alt)
  with len show "ps \<noteq> []" by auto
qed

lemma put_evict_gen:
  assumes inv: "cache_inv ps (h, c)" and miss: "map_of (lru_cache_map c) k = None"
    and full: "list_size (lru_list c) = scast (m_capacity c)"
  shows "\<exists>b victim h' l'. ps \<noteq> [] \<and> b = last ps \<and> list_back (lru_list c) = Some b \<and>
           h b = Some victim \<and> map_of (lru_cache_map c) (node_key victim) = Some b \<and>
           put a True k v (h, c) =
             Returns ()
               (h', c\<lparr>lru_list := l',
                      lru_cache_map :=
                        AList.update k b (AList.delete (node_key victim) (lru_cache_map c))\<rparr>) \<and>
           put a False k v (h, c) =
             Throws bad_alloc
               (h', c\<lparr>lru_list := l',
                      lru_cache_map := AList.delete (node_key victim) (lru_cache_map c)\<rparr>) \<and>
           cache_inv (b # butlast ps)
             (h', c\<lparr>lru_list := l',
                    lru_cache_map :=
                      AList.update k b (AList.delete (node_key victim) (lru_cache_map c))\<rparr>) \<and>
           list_size l' = list_size (lru_list c) \<and>
           same_payload (h(b \<mapsto> victim\<lparr>node_key := k, node_value := v\<rparr>)) h' \<and>
           (\<forall>q. q \<notin> set ps \<longrightarrow> h' q = h q)"
proof -
  from full_nonempty [OF inv full] have ne: "ps \<noteq> []" by simp
  define b where "b = last ps"
  have mem: "b \<in> set ps" using ne by (simp add: b_def)
  from inv have li: "list_inv ps (h, lru_list c)" and d: "distinct ps"
    and dk: "distinct (map fst (lru_cache_map c))"
    and len: "length (lru_cache_map c) = length ps"
    and img: "set (map snd (lru_cache_map c)) = set ps"
    and ky: "list_all (keyed h) (lru_cache_map c)"
    by (simp_all add: cache_inv_def list_inv_def)
  from li ne have bk: "list_back (lru_list c) = Some b"
    by (simp add: list_inv_def b_def last_or_last)
  from li mem obtain victim where vi: "h b = Some victim"
    by (auto simp: list_inv_def dest: dll_live)
  from mem img obtain k0 where k0: "(k0, b) \<in> set (lru_cache_map c)" by force
  with ky vi have k0_eq: "k0 = node_key victim"
    by (auto simp: list_all_iff keyed_def)
  from k0 obtain m1 m2 where m: "lru_cache_map c = m1 @ (node_key victim, b) # m2"
    unfolding k0_eq by (auto dest: split_list)
  have old: "map_of (lru_cache_map c) (node_key victim) = Some b"
    using dk k0 k0_eq by simp
  have dv: "distinct (map snd (lru_cache_map c))" using len img d by (rule index_inj)
  from miss have "k \<notin> fst ` set (lru_cache_map c)"
    by (simp add: map_of_eq_None_iff)
  then have kn: "k \<notin> fst ` set (m1 @ m2)"
    unfolding m by auto
  let ?h2 = "h(b \<mapsto> victim\<lparr>node_key := k, node_value := v\<rparr>)"
  let ?m' = "AList.update k b (AList.delete (node_key victim) (lru_cache_map c))"
  have m': "?m' = m1 @ m2 @ [(k, b)]"
    using dk kn by (simp add: m delete_present update_absent)
  have inv2: "cache_inv ps (?h2, c\<lparr>lru_cache_map := ?m'\<rparr>)"
    unfolding m' using inv vi d dv kn img mem
    by (auto simp: cache_inv_def list_inv_def dll_payload_upd list_all_iff keyed_def m)
  from touch [OF inv2 mem] obtain h' l' where
    mv: "move_to_front (Some b) (?h2, lru_list c) = Some (h', l')"
    and inv': "cache_inv (b # remove1 b ps) (h', c\<lparr>lru_cache_map := ?m', lru_list := l'\<rparr>)"
    and sz: "list_size l' = list_size (lru_list c)"
    and sp: "same_payload ?h2 h'" and fr: "\<forall>q. q \<notin> set ps \<longrightarrow> h' q = ?h2 q"
    by auto
  from fr mem have fr': "\<forall>q. q \<notin> set ps \<longrightarrow> h' q = h q" by auto
  have rm: "remove1 b ps = butlast ps"
    using d ne unfolding b_def by (rule remove1_last)
  have "c\<lparr>lru_cache_map := ?m', lru_list := l'\<rparr> = c\<lparr>lru_list := l', lru_cache_map := ?m'\<rparr>"
    by (cases c) simp
  with inv' rm have inv'': "cache_inv (b # butlast ps) (h', c\<lparr>lru_list := l', lru_cache_map := ?m'\<rparr>)"
    by simp
  have absent: "map_of (AList.delete (node_key victim) (lru_cache_map c)) k = None"
    using miss by (simp add: delete_conv')
  show ?thesis
    using ne bk vi old mv inv'' sz sp fr' miss full absent
    by (intro exI [of _ b] exI [of _ victim] exI [of _ h'] exI [of _ l'])
       (simp add: put_def b_def map_assign_def)
qed

lemma put_evict:
  assumes inv: "cache_inv ps (h, c)" and miss: "map_of (lru_cache_map c) k = None"
    and full: "list_size (lru_list c) = scast (m_capacity c)"
  shows "\<exists>b victim h' c'. ps \<noteq> [] \<and> b = last ps \<and> list_back (lru_list c) = Some b \<and>
           h b = Some victim \<and> map_of (lru_cache_map c) (node_key victim) = Some b \<and>
           put a True k v (h, c) = Returns () (h', c') \<and>
           cache_inv (b # butlast ps) (h', c') \<and>
           lru_cache_map c' = AList.update k b (AList.delete (node_key victim) (lru_cache_map c)) \<and>
           m_capacity c' = m_capacity c \<and>
           list_size (lru_list c') = list_size (lru_list c) \<and>
           same_payload (h(b \<mapsto> victim\<lparr>node_key := k, node_value := v\<rparr>)) h' \<and>
           (\<forall>q. q \<notin> set ps \<longrightarrow> h' q = h q)"
proof -
  from put_evict_gen [OF inv miss full, of a v] obtain b victim h' l' where
    *: "ps \<noteq> []" "b = last ps" "list_back (lru_list c) = Some b" "h b = Some victim"
       "map_of (lru_cache_map c) (node_key victim) = Some b"
       "put a True k v (h, c) =
          Returns ()
            (h', c\<lparr>lru_list := l',
                   lru_cache_map :=
                     AList.update k b (AList.delete (node_key victim) (lru_cache_map c))\<rparr>)"
       "cache_inv (b # butlast ps)
          (h', c\<lparr>lru_list := l',
                 lru_cache_map :=
                   AList.update k b (AList.delete (node_key victim) (lru_cache_map c))\<rparr>)"
       "list_size l' = list_size (lru_list c)"
       "same_payload (h(b \<mapsto> victim\<lparr>node_key := k, node_value := v\<rparr>)) h'"
       "\<forall>q. q \<notin> set ps \<longrightarrow> h' q = h q"
    by blast
  then show ?thesis
    by (intro exI [of _ b] exI [of _ victim] exI [of _ h']
          exI [of _ "c\<lparr>lru_list := l',
                       lru_cache_map :=
                         AList.update k b (AList.delete (node_key victim) (lru_cache_map c))\<rparr>"])
       simp
qed

lemma put_evict_fails:
  assumes inv: "cache_inv ps (h, c)" and miss: "map_of (lru_cache_map c) k = None"
    and full: "list_size (lru_list c) = scast (m_capacity c)"
  shows "\<exists>victim h' c'. h (last ps) = Some victim \<and>
           put a False k v (h, c) = Throws bad_alloc (h', c') \<and>
           lru_cache_map c' = AList.delete (node_key victim) (lru_cache_map c) \<and>
           length (lru_cache_map c') < length (lru_cache_map c) \<and>
           list_size (lru_list c') = list_size (lru_list c)"
proof -
  from put_evict_gen [OF inv miss full, of a v] obtain b victim h' l' where
    *: "b = last ps" "h b = Some victim"
       "map_of (lru_cache_map c) (node_key victim) = Some b"
       "put a False k v (h, c) =
          Throws bad_alloc
            (h', c\<lparr>lru_list := l',
                   lru_cache_map := AList.delete (node_key victim) (lru_cache_map c)\<rparr>)"
       "list_size l' = list_size (lru_list c)"
    by blast
  from *(3) have "(node_key victim, b) \<in> set (lru_cache_map c)" by (rule map_of_SomeD)
  then have "length (AList.delete (node_key victim) (lru_cache_map c)) < length (lru_cache_map c)"
    unfolding AList.delete_eq by (intro length_filter_less [where x = "(node_key victim, b)"]) simp_all
  with * show ?thesis
    by (intro exI [of _ victim] exI [of _ h']
          exI [of _ "c\<lparr>lru_list := l',
                       lru_cache_map := AList.delete (node_key victim) (lru_cache_map c)\<rparr>"])
       simp
qed

lemma add_to_front_ok:
  assumes inv: "list_inv ps (h, l)" and fresh: "h p = None" and small: "length ps < 2 ^ 31"
  shows "\<exists>h' l'. add_to_front (Some p) k v (h, l) = Returns p (h', l') \<and>
           list_inv (p # ps) (h', l') \<and> list_size l' = list_size l + 1 \<and>
           same_payload
             (h(p \<mapsto> \<lparr>node_key = k, node_value = v, node_prev = None, node_next = None\<rparr>)) h' \<and>
           (\<forall>q. q \<notin> set (p # ps) \<longrightarrow> h' q = h q)"
proof -
  from inv have d: "distinct ps" and dl: "dll h None ps None"
    and fr: "list_front l = first_or None ps" and bk: "list_back l = last_or None ps"
    and sz: "unat (list_size l) = length ps"
    by (simp_all add: list_inv_def)
  from dl fresh have nin: "p \<notin> set ps" by (auto dest: dll_live)
  from sz small have sz': "unat (list_size l + 1) = Suc (length ps)"
    by (simp add: unat_size_incr)
  show ?thesis
  proof (cases ps)
    case Nil
    with fr bk sz' show ?thesis
      by (simp add: add_to_front_def list_inv_def dll_Cons_iff)
  next
    case (Cons x xs)
    from dl Cons obtain nx where
      "h x = Some nx" "node_prev nx = None" "node_next nx = first_or None xs"
      "dll h (Some x) xs None"
      by (auto simp: dll_Cons_iff)
    then show ?thesis using Cons fr bk sz' d nin fresh
      by (auto simp: add_to_front_def list_inv_def dll_Cons_iff store_def dll_frame
            same_payload_def payload_def)
  qed
qed

lemma not_full_room:
  assumes inv: "cache_inv ps (h, c)" and nf: "list_size (lru_list c) \<noteq> scast (m_capacity c)"
  shows "length ps < nat (sint (m_capacity c))"
proof -
  from inv have pos: "0 <s m_capacity c" and sz: "unat (list_size (lru_list c)) = length ps"
    and le: "length ps \<le> nat (sint (m_capacity c))"
    by (simp_all add: cache_inv_def list_inv_def)
  have "length ps \<noteq> nat (sint (m_capacity c))"
  proof
    assume "length ps = nat (sint (m_capacity c))"
    with sz unat_scast_capacity [OF pos]
    have "unat (list_size (lru_list c)) = unat (scast (m_capacity c) :: 64 word)" by simp
    then have "list_size (lru_list c) = scast (m_capacity c)" by (simp only: word_unat_eq_iff)
    with nf show False by simp
  qed
  with le show ?thesis by simp
qed

lemma capacity_small: "nat (sint (c :: 32 word)) < 2 ^ 31"
  using sint_32_bound [of c] by (cases "0 \<le> sint c") simp_all

lemma put_grow:
  assumes inv: "cache_inv ps (h, c)" and miss: "map_of (lru_cache_map c) k = None"
    and nf: "list_size (lru_list c) \<noteq> scast (m_capacity c)" and fresh: "h p = None"
  shows "\<exists>h' c'. put (Some p) True k v (h, c) = Returns () (h', c') \<and>
           cache_inv (p # ps) (h', c') \<and>
           lru_cache_map c' = AList.update k p (lru_cache_map c) \<and>
           m_capacity c' = m_capacity c \<and>
           list_size (lru_list c') = list_size (lru_list c) + 1 \<and>
           same_payload
             (h(p \<mapsto> \<lparr>node_key = k, node_value = v, node_prev = None, node_next = None\<rparr>)) h' \<and>
           (\<forall>q. q \<notin> set (p # ps) \<longrightarrow> h' q = h q)"
proof -
  from inv have li: "list_inv ps (h, lru_list c)" by (simp add: cache_inv_def)
  have room: "length ps < nat (sint (m_capacity c))" using inv nf by (rule not_full_room)
  with capacity_small [of "m_capacity c"] have small: "length ps < 2 ^ 31" by simp
  let ?h0 = "h(p \<mapsto> \<lparr>node_key = k, node_value = v, node_prev = None, node_next = None\<rparr>)"
  from add_to_front_ok [OF li fresh small, of k v] obtain h' l' where
    add: "add_to_front (Some p) k v (h, lru_list c) = Returns p (h', l')"
    and li': "list_inv (p # ps) (h', l')"
    and sz: "list_size l' = list_size (lru_list c) + 1"
    and sp: "same_payload ?h0 h'" and fr: "\<forall>q. q \<notin> set (p # ps) \<longrightarrow> h' q = h q"
    by blast
  from miss have kn: "k \<notin> fst ` set (lru_cache_map c)"
    by (simp add: map_of_eq_None_iff)
  then have m': "AList.update k p (lru_cache_map c) = lru_cache_map c @ [(k, p)]"
    by (rule update_absent)
  have live: "\<forall>kp \<in> set (lru_cache_map c). snd kp \<noteq> p"
    using inv fresh by (auto simp: cache_inv_def list_all_iff keyed_def)
  have "list_all (keyed ?h0) (lru_cache_map c @ [(k, p)])"
    using inv live by (auto simp: cache_inv_def list_all_iff keyed_def)
  then have ky: "list_all (keyed h') (lru_cache_map c @ [(k, p)])"
    by (simp add: list_all_iff same_payload_keyed [OF sp])
  have "cache_inv (p # ps) (h', c\<lparr>lru_list := l', lru_cache_map := lru_cache_map c @ [(k, p)]\<rparr>)"
    using inv li' room kn ky by (auto simp: cache_inv_def)
  then show ?thesis
    using add sz sp fr miss nf m'
    by (intro exI [of _ h']
          exI [of _ "c\<lparr>lru_list := l', lru_cache_map := lru_cache_map c @ [(k, p)]\<rparr>"])
       (simp add: put_def map_assign_def)
qed

lemma put_throw:
  assumes miss: "map_of (lru_cache_map c) k = None"
    and nf: "list_size (lru_list c) \<noteq> scast (m_capacity c)"
  shows "put None m k v (h, c) = Throws std_exception (h, c)"
  using assms by (simp add: put_def add_to_front_def)

lemma delete_nodes_ok:
  assumes "distinct (map snd m)" "\<forall>kp \<in> set m. h (snd kp) \<noteq> None"
  shows "delete_nodes m h = Some (\<lambda>q. if q \<in> snd ` set m then None else h q)"
  using assms
proof (induction m arbitrary: h)
  case Nil
  then show ?case by simp
next
  case (Cons kp m)
  from Cons.prems have nin: "snd kp \<notin> snd ` set m" and dm: "distinct (map snd m)"
    by simp_all
  from nin have other: "\<forall>kp' \<in> set m. snd kp' \<noteq> snd kp" by (metis imageI)
  from Cons.prems obtain n where live: "h (snd kp) = Some n" by auto
  have "delete_nodes m (h(snd kp := None)) =
      Some (\<lambda>q. if q \<in> snd ` set m then None else (h(snd kp := None)) q)"
    using dm Cons.prems(2) other by (intro Cons.IH) simp_all
  with live show ?case by (simp add: fun_eq_iff)
qed

lemma clear_ok:
  assumes inv: "cache_inv ps (h, c)"
  shows "clear (h, c) =
           Returns () (\<lambda>q. if q \<in> set ps then None else h q, c\<lparr>lru_cache_map := []\<rparr>)"
proof -
  from inv have d: "distinct ps" and len: "length (lru_cache_map c) = length ps"
    and img: "set (map snd (lru_cache_map c)) = set ps"
    and ky: "list_all (keyed h) (lru_cache_map c)"
    by (simp_all add: cache_inv_def list_inv_def)
  have dv: "distinct (map snd (lru_cache_map c))" using len img d by (rule index_inj)
  have "\<forall>kp \<in> set (lru_cache_map c). h (snd kp) \<noteq> None"
    using ky by (auto simp: list_all_iff keyed_def split: option.splits)
  from delete_nodes_ok [OF dv this] img show ?thesis
    by (simp add: clear_def)
qed

lemmas exec_defs = put_def map_assign_def get_def add_to_front_def move_to_front_def store_def deref_def
  LRUTwoWayList_ctor_def LRUCache_ctor_def KEY_NOT_FOUND_RET_VAL_def
  AList.delete_eq clear_def size_cache_def capacity_def

lemmas inv_defs = cache_inv_def list_inv_def dll_Cons_iff keyed_def word_sless_alt

lemma cache_inv_front: "cache_inv (p # ps) (h, c) \<Longrightarrow> list_front (lru_list c) = Some p"
  by (simp add: cache_inv_def list_inv_def)

lemma add_to_front_returns:
  assumes inv: "list_inv ps (h, l)"
  shows "\<exists>hl'. add_to_front (Some p) k v (h, l) = Returns p hl'"
proof (cases ps)
  case Nil
  with inv show ?thesis by (simp add: add_to_front_def list_inv_def)
next
  case (Cons x xs)
  with inv obtain nx where "h x = Some nx" "list_front l = Some x"
    by (auto simp: list_inv_def dll_Cons_iff)
  then show ?thesis by (simp add: add_to_front_def store_def)
qed

lemma put_grow_outcome:
  assumes inv: "cache_inv ps (h, c)" and miss: "map_of (lru_cache_map c) k = None"
    and nf: "list_size (lru_list c) \<noteq> scast (m_capacity c)"
  shows "(\<exists>w'. put (Some p) True k v (h, c) = Returns () w') \<and>
         (\<exists>hl'. add_to_front (Some p) k v (h, lru_list c) = Returns p hl' \<and>
            put (Some p) False k v (h, c) = Throws bad_alloc (fst hl', c\<lparr>lru_list := snd hl'\<rparr>))"
proof -
  from inv have "list_inv ps (h, lru_list c)" by (simp add: cache_inv_def)
  from add_to_front_returns [OF this, of p k v] miss nf show ?thesis
    by (auto simp: put_def map_assign_def)
qed

lemma put_outcomes:
  assumes inv: "cache_inv ps (h, c)"
  shows "(map_of (lru_cache_map c) k \<noteq> None \<and> (\<exists>w'. put a m k v (h, c) = Returns () w')) \<or>
         (map_of (lru_cache_map c) k = None \<and> size_cache (h, c) = capacity (h, c) \<and> m \<and>
            (\<exists>w'. put a m k v (h, c) = Returns () w')) \<or>
         (map_of (lru_cache_map c) k = None \<and> size_cache (h, c) = capacity (h, c) \<and> \<not> m \<and>
            (\<exists>w'. put a m k v (h, c) = Throws bad_alloc w')) \<or>
         (map_of (lru_cache_map c) k = None \<and> size_cache (h, c) \<noteq> capacity (h, c) \<and>
            a = None \<and> put a m k v (h, c) = Throws std_exception (h, c)) \<or>
         (map_of (lru_cache_map c) k = None \<and> size_cache (h, c) \<noteq> capacity (h, c) \<and>
            a \<noteq> None \<and> m \<and> (\<exists>w'. put a m k v (h, c) = Returns () w')) \<or>
         (map_of (lru_cache_map c) k = None \<and> size_cache (h, c) \<noteq> capacity (h, c) \<and>
            a \<noteq> None \<and> \<not> m \<and> (\<exists>w'. put a m k v (h, c) = Throws bad_alloc w'))"
proof (cases "map_of (lru_cache_map c) k")
  case (Some p)
  from put_hit [OF inv Some, of a m v] Some show ?thesis by auto
next
  case None
  show ?thesis
  proof (cases "list_size (lru_list c) = scast (m_capacity c)")
    case True
    from put_evict_gen [OF inv None True, of a v] None True show ?thesis
      by (cases m) (auto simp: size_cache_def capacity_def)
  next
    case False
    show ?thesis
    proof (cases a)
      case none: None
      from put_throw [OF None False, of m v h] None False none show ?thesis
        by (simp add: size_cache_def capacity_def)
    next
      case (Some p)
      from put_grow_outcome [OF inv None False, of p v] None False Some show ?thesis
        by (cases m) (auto simp: size_cache_def capacity_def)
    qed
  qed
qed

lemma below_capacity:
  assumes inv: "cache_inv ps (h, c)" and nf: "size_cache (h, c) \<noteq> capacity (h, c)"
  shows "unat (size_cache (h, c)) < unat (capacity (h, c))"
proof -
  from inv have pos: "0 <s m_capacity c" and sz: "unat (list_size (lru_list c)) = length ps"
    by (simp_all add: cache_inv_def list_inv_def)
  from nf have "list_size (lru_list c) \<noteq> scast (m_capacity c)"
    by (simp add: size_cache_def capacity_def)
  from not_full_room [OF inv this] sz unat_scast_capacity [OF pos] show ?thesis
    by (simp add: size_cache_def capacity_def)
qed

text \<open>
  The invariant is established by the constructor and kept by \<^verbatim>\<open>get\<close> and by every call
  of \<^verbatim>\<open>put\<close> that returns; a \<^verbatim>\<open>put\<close> whose node allocation fails leaves the state as it
  was. So the invariant holds in every reachable state.
\<close>

lemma ctor_establishes_inv: "LRUCache_ctor cap = Inr c \<Longrightarrow> cache_inv [] (h, c)"
  by (auto simp: LRUCache_ctor_def cache_inv_def list_inv_def LRUTwoWayList_ctor_def
        word_sle_eq word_sless_alt split: if_splits)

lemma get_preserves_inv:
  assumes inv: "cache_inv ps w"
  shows "\<exists>r w' ps'. get k w = Returns r w' \<and> cache_inv ps' w'"
proof (cases w)
  case (Pair h c)
  show ?thesis
  proof (cases "map_of (lru_cache_map c) k")
    case None
    with inv Pair show ?thesis by (auto simp: get_def)
  next
    case (Some p)
    from get_hit [OF inv [unfolded Pair] Some] Pair show ?thesis by blast
  qed
qed

lemma put_preserves_inv:
  assumes inv: "cache_inv ps (h, c)" and fresh: "\<forall>p. a = Some p \<longrightarrow> h p = None"
    and ret: "put a m k v (h, c) = Returns u w'"
  shows "\<exists>ps'. cache_inv ps' w'"
proof (cases "map_of (lru_cache_map c) k")
  case (Some p)
  from put_hit [OF inv Some, of a m v] ret show ?thesis by auto
next
  case None
  show ?thesis
  proof (cases "list_size (lru_list c) = scast (m_capacity c)")
    case True
    from put_evict_gen [OF inv None True, of a v] ret show ?thesis
      by (cases m) auto
  next
    case False
    show ?thesis
    proof (cases a)
      case none: None
      from put_throw [OF None False, of m v h] none ret show ?thesis by simp
    next
      case (Some p)
      from fresh Some have fr: "h p = None" by simp
      show ?thesis
      proof (cases m)
        case True
        from put_grow [OF inv None False fr, of v] Some True ret show ?thesis by auto
      next
        case False
        from put_grow_outcome [OF inv None \<open>list_size (lru_list c) \<noteq> scast (m_capacity c)\<close>, of p v]
          Some False ret
        show ?thesis by auto
      qed
    qed
  qed
qed

lemma reachable_inv: "reachable w \<Longrightarrow> \<exists>ps. cache_inv ps w"
proof (induction rule: reachable.induct)
  case (constructed cap c h)
  then show ?case by (blast dest: ctor_establishes_inv)
next
  case (after_get w k r w')
  then obtain ps where "cache_inv ps w" by blast
  from get_preserves_inv [OF this, of k] after_get.hyps(2) show ?case by auto
next
  case (after_put h c a m k v u w')
  then obtain ps where "cache_inv ps (h, c)" by blast
  from this after_put.hyps(2) after_put.hyps(3) show ?case by (rule put_preserves_inv)
next
  case (after_throw w m k v w')
  then obtain ps where inv: "cache_inv ps w" by blast
  obtain h c where w: "w = (h, c)" by (cases w)
  from put_outcomes [OF inv [unfolded w], where k = k and a = None and v = v and m = m]
    after_throw.hyps(2) w
  have "w' = w" by auto
  with inv show ?case by blast
qed

section \<open>Examples\<close>

lemma demo_inv: "cache_inv [1, 0] (demo_heap, demo_cache 2)"
  by (auto simp: inv_defs demo_heap_def demo_cache_def)

lemma demo_inv3: "cache_inv [1, 0] (demo_heap, demo_cache 3)"
  by (auto simp: inv_defs demo_heap_def demo_cache_def)

lemma demo_built:
  "\<exists>c. LRUCache_ctor 2 = Inr c \<and>
     run [Put (Some 0) True 1 10, Put (Some 1) True 2 20] (Map.empty, c) = Some ([], (demo_heap, demo_cache 2))"
  by (simp add: exec_defs word_sle_eq demo_heap_def demo_cache_def fun_eq_iff)

lemma demo_built3:
  "\<exists>c. LRUCache_ctor 3 = Inr c \<and>
     run [Put (Some 0) True 1 10, Put (Some 1) True 2 20] (Map.empty, c) = Some ([], (demo_heap, demo_cache 3))"
  by (simp add: exec_defs word_sle_eq demo_heap_def demo_cache_def fun_eq_iff)

section \<open>Construction\<close>

text \<open>
  C7. For every \<^verbatim>\<open>int\<close> \<open>c\<close>: when \<open>c \<le> 0\<close> the constructor throws \<open>InvalidCapacity\<close>
  and there is no cache; when \<open>c > 0\<close> it returns a cache that is empty and well formed, of
  size 0 and capacity \<open>c\<close>.
\<close>

theorem LRUCache_ctor_spec:
  "(sint c \<le> 0 \<longrightarrow> LRUCache_ctor c = Inl InvalidCapacity) \<and>
   (0 < sint c \<longrightarrow>
      (\<exists>cache. LRUCache_ctor c = Inr cache \<and> cache_inv [] (h, cache) \<and>
         lru_cache_map cache = [] \<and> size_cache (h, cache) = 0 \<and>
         uint (capacity (h, cache)) = sint c))"
proof (intro conjI impI)
  assume "sint c \<le> 0"
  then show "LRUCache_ctor c = Inl InvalidCapacity"
    by (simp add: LRUCache_ctor_def word_sle_eq)
next
  assume pos: "0 < sint c"
  then have lt: "0 <s c" by (simp add: word_sless_alt)
  from unat_scast_capacity [OF lt] have "int (unat (scast c :: 64 word)) = int (nat (sint c))"
    by (simp only:)
  with pos have "uint (scast c :: 64 word) = sint c"
    by simp
  with pos lt show "\<exists>cache. LRUCache_ctor c = Inr cache \<and> cache_inv [] (h, cache) \<and>
         lru_cache_map cache = [] \<and> size_cache (h, cache) = 0 \<and>
         uint (capacity (h, cache)) = sint c"
    by (simp add: LRUCache_ctor_def word_sle_eq cache_inv_def list_inv_def LRUTwoWayList_ctor_def
          size_cache_def capacity_def)
qed

theorem LRUCache_ctor_spec_witness:
  "sint (0 :: 32 word) \<le> 0 \<and> LRUCache_ctor 0 = Inl InvalidCapacity \<and>
   sint (- 5 :: 32 word) \<le> 0 \<and> LRUCache_ctor (- 5) = Inl InvalidCapacity \<and>
   0 < sint (2 :: 32 word) \<and>
   (\<exists>cache. LRUCache_ctor 2 = Inr cache \<and> size_cache (Map.empty, cache) = 0 \<and>
      uint (capacity (Map.empty, cache)) = 2)"
  using LRUCache_ctor_spec [of 0 Map.empty] LRUCache_ctor_spec [of "- 5" Map.empty]
    LRUCache_ctor_spec [of 2 Map.empty]
  by auto

section \<open>\<^verbatim>\<open>get\<close>\<close>

text \<open>
  C5. In a well-formed state, for every key \<open>k\<close>: when \<open>k\<close> is not in the index, \<^verbatim>\<open>get\<close>
  returns the not-found value and the whole state (heap, list, index) is what it was; when
  the index maps \<open>k\<close> to the node \<open>p\<close>, \<^verbatim>\<open>get\<close> returns the value stored in \<open>p\<close>, and
  afterwards \<open>p\<close> is the front of the list, the other nodes keep their relative order, and the
  index, the size, the capacity and every key and value are unchanged. In both cases
  \<^verbatim>\<open>get\<close> returns: it neither throws nor runs into undefined behaviour.
\<close>

theorem get_spec:
  assumes inv: "cache_inv ps (h, c)"
  shows "(map_of (lru_cache_map c) k = None \<longrightarrow>
            get k (h, c) = Returns KEY_NOT_FOUND_RET_VAL (h, c)) \<and>
         (\<forall>p. map_of (lru_cache_map c) k = Some p \<longrightarrow>
            (\<exists>n h' c'. h p = Some n \<and> node_key n = k \<and>
               get k (h, c) = Returns (node_value n) (h', c') \<and>
               cache_inv (p # remove1 p ps) (h', c') \<and>
               list_front (lru_list c') = Some p \<and>
               lru_cache_map c' = lru_cache_map c \<and>
               size_cache (h', c') = size_cache (h, c) \<and>
               capacity (h', c') = capacity (h, c) \<and>
               same_payload h h')) \<and>
         (\<exists>r w'. get k (h, c) = Returns r w')"
proof -
  have miss: "get k (h, c) = Returns KEY_NOT_FOUND_RET_VAL (h, c)"
    if "map_of (lru_cache_map c) k = None"
    using that by (simp add: get_def)
  have hit: "\<exists>n h' c'. h p = Some n \<and> node_key n = k \<and>
               get k (h, c) = Returns (node_value n) (h', c') \<and>
               cache_inv (p # remove1 p ps) (h', c') \<and>
               list_front (lru_list c') = Some p \<and>
               lru_cache_map c' = lru_cache_map c \<and>
               size_cache (h', c') = size_cache (h, c) \<and>
               capacity (h', c') = capacity (h, c) \<and>
               same_payload h h'"
    if "map_of (lru_cache_map c) k = Some p" for p
  proof -
    from get_hit [OF inv that] obtain n h' c' where
      *: "h p = Some n" "node_key n = k" "get k (h, c) = Returns (node_value n) (h', c')"
         "cache_inv (p # remove1 p ps) (h', c')" "lru_cache_map c' = lru_cache_map c"
         "m_capacity c' = m_capacity c" "list_size (lru_list c') = list_size (lru_list c)"
         "same_payload h h'"
      by blast
    from *(4) have "list_front (lru_list c') = Some p" by (rule cache_inv_front)
    with * show ?thesis
      by (intro exI [of _ n] exI [of _ h'] exI [of _ c']) (simp add: size_cache_def capacity_def)
  qed
  have "\<exists>r w'. get k (h, c) = Returns r w'"
  proof (cases "map_of (lru_cache_map c) k")
    case None
    with miss show ?thesis by blast
  next
    case (Some p)
    with hit [of p] show ?thesis by blast
  qed
  with miss hit show ?thesis by blast
qed

theorem get_spec_witness:
  "cache_inv [1, 0] (demo_heap, demo_cache 2) \<and>
   map_of (lru_cache_map (demo_cache 2)) 9 = None \<and>
   get 9 (demo_heap, demo_cache 2) = Returns (- 1) (demo_heap, demo_cache 2) \<and>
   map_of (lru_cache_map (demo_cache 2)) 1 = Some 0 \<and>
   (\<exists>h' c'. get 1 (demo_heap, demo_cache 2) = Returns 10 (h', c') \<and> cache_inv [0, 1] (h', c') \<and>
      list_front (lru_list c') = Some 0)"
proof -
  have m: "map_of (lru_cache_map (demo_cache 2)) 9 = None"
      "map_of (lru_cache_map (demo_cache 2)) 1 = Some 0"
    by (simp_all add: demo_cache_def)
  have v: "demo_heap 0 = Some n \<Longrightarrow> node_value n = 10" for n
    by (auto simp: demo_heap_def)
  from get_spec [OF demo_inv, of 9] get_spec [OF demo_inv, of 1] m v demo_inv
  show ?thesis by (fastforce simp: KEY_NOT_FOUND_RET_VAL_def)
qed

text \<open>
  C9. In a well-formed state, for a key \<open>k\<close> that the index maps to the node \<open>p\<close>: the first
  \<^verbatim>\<open>get(k)\<close> returns the value stored in \<open>p\<close> and leaves \<open>p\<close> at the front of the list; the
  second \<^verbatim>\<open>get(k)\<close> returns the same value and, \<open>p\<close> being the front already, leaves the
  whole state, the list included, as the first call left it.
\<close>

theorem get_twice:
  assumes inv: "cache_inv ps (h, c)" and hit: "map_of (lru_cache_map c) k = Some p"
  shows "\<exists>n h' c'. h p = Some n \<and>
           get k (h, c) = Returns (node_value n) (h', c') \<and>
           list_front (lru_list c') = Some p \<and>
           cache_inv (p # remove1 p ps) (h', c') \<and>
           move_to_front (Some p) (h', lru_list c') = Some (h', lru_list c') \<and>
           get k (h', c') = Returns (node_value n) (h', c')"
proof -
  from get_hit [OF inv hit] obtain n h' c' where
    *: "h p = Some n" "get k (h, c) = Returns (node_value n) (h', c')"
       "cache_inv (p # remove1 p ps) (h', c')" "lru_cache_map c' = lru_cache_map c"
       "same_payload h h'"
    by blast
  from same_payload_live [OF *(5) *(1)] obtain n' where
    n': "h' p = Some n'" "node_value n' = node_value n" by blast
  from *(3) have fr: "list_front (lru_list c') = Some p" by (rule cache_inv_front)
  then have mv: "move_to_front (Some p) (h', lru_list c') = Some (h', lru_list c')"
    by (simp add: move_to_front_def)
  with n' hit *(4) have "get k (h', c') = Returns (node_value n) (h', c')"
    by (simp add: get_def)
  with * fr mv show ?thesis by blast
qed

theorem get_twice_witness:
  "cache_inv [1, 0] (demo_heap, demo_cache 2) \<and>
   map_of (lru_cache_map (demo_cache 2)) 1 = Some 0 \<and>
   list_front (lru_list (demo_cache 2)) = Some 1 \<and>
   (\<exists>h' c'. get 1 (demo_heap, demo_cache 2) = Returns 10 (h', c') \<and>
      list_front (lru_list c') = Some 0 \<and> cache_inv [0, 1] (h', c') \<and>
      get 1 (h', c') = Returns 10 (h', c'))"
proof -
  have m: "map_of (lru_cache_map (demo_cache 2)) 1 = Some 0"
    "list_front (lru_list (demo_cache 2)) = Some 1"
    by (simp_all add: demo_cache_def)
  have v: "demo_heap 0 = Some n \<Longrightarrow> node_value n = 10" for n
    by (auto simp: demo_heap_def)
  from get_twice [OF demo_inv m(1)] demo_inv m v show ?thesis by fastforce
qed

section \<open>\<^verbatim>\<open>put\<close>\<close>

text \<open>
  C6. In a well-formed state, when the index maps \<open>k\<close> to the node \<open>p\<close>, \<^verbatim>\<open>put(k, v)\<close>
  returns, whatever an allocation would do (this path makes none); afterwards \<open>p\<close> holds
  \<open>k\<close> and \<open>v\<close> and is the front of the list, and nothing else has changed: the same nodes are live, every other node
  has its key and value, the other nodes keep their relative order, and the index, the size
  and the capacity are what they were.
\<close>

theorem put_present_spec:
  assumes inv: "cache_inv ps (h, c)" and hit: "map_of (lru_cache_map c) k = Some p"
  shows "\<exists>n h' c'. h p = Some n \<and> node_key n = k \<and>
           put a m k v (h, c) = Returns () (h', c') \<and>
           (\<exists>n'. h' p = Some n' \<and> node_key n' = k \<and> node_value n' = v) \<and>
           same_payload (h(p \<mapsto> n\<lparr>node_value := v\<rparr>)) h' \<and>
           cache_inv (p # remove1 p ps) (h', c') \<and>
           list_front (lru_list c') = Some p \<and>
           lru_cache_map c' = lru_cache_map c \<and>
           dom h' = dom h \<and>
           size_cache (h', c') = size_cache (h, c) \<and>
           capacity (h', c') = capacity (h, c)"
proof -
  from put_hit [OF inv hit, of a m v] obtain n h' c' where
    *: "h p = Some n" "node_key n = k" "put a m k v (h, c) = Returns () (h', c')"
       "cache_inv (p # remove1 p ps) (h', c')" "lru_cache_map c' = lru_cache_map c"
       "m_capacity c' = m_capacity c" "list_size (lru_list c') = list_size (lru_list c)"
       "same_payload (h(p \<mapsto> n\<lparr>node_value := v\<rparr>)) h'"
    by blast
  from same_payload_live [OF *(8), of p] *(2) have
    new: "\<exists>n'. h' p = Some n' \<and> node_key n' = k \<and> node_value n' = v" by simp
  from same_payload_dom [OF *(8)] *(1) have dom: "dom h' = dom h" by auto
  from *(4) have "list_front (lru_list c') = Some p" by (rule cache_inv_front)
  with * new dom show ?thesis
    by (intro exI [of _ n] exI [of _ h'] exI [of _ c']) (simp add: size_cache_def capacity_def)
qed

theorem put_present_spec_witness:
  "cache_inv [1, 0] (demo_heap, demo_cache 2) \<and>
   map_of (lru_cache_map (demo_cache 2)) 1 = Some 0 \<and>
   (\<exists>h' c' n'. put None False 1 11 (demo_heap, demo_cache 2) = Returns () (h', c') \<and>
      h' 0 = Some n' \<and> node_key n' = 1 \<and> node_value n' = 11 \<and>
      cache_inv [0, 1] (h', c') \<and> lru_cache_map c' = [(1, 0), (2, 1)] \<and>
      size_cache (h', c') = 2)"
proof -
  have m: "map_of (lru_cache_map (demo_cache 2)) 1 = Some 0"
    by (simp add: demo_cache_def)
  have s: "size_cache (demo_heap, demo_cache 2) = 2" "lru_cache_map (demo_cache 2) = [(1, 0), (2, 1)]"
    by (simp_all add: size_cache_def demo_cache_def)
  from put_present_spec [OF demo_inv m, of None False 11] demo_inv m s
  show ?thesis by fastforce
qed

text \<open>
  C3. In a well-formed state with \<^verbatim>\<open>size() == capacity()\<close>, for a key \<open>k\<close> that is not in
  the index, a call \<^verbatim>\<open>put(k, v)\<close> whose allocations succeed returns (\<open>r\<close> is the address the
  allocation of a list node would give; the call never asks for it). With \<open>b\<close> the back
  node and \<open>victim\<close> its contents before the call: the index loses the key of \<open>victim\<close> and
  maps \<open>k\<close> to \<open>b\<close>; \<open>b\<close> now holds \<open>k\<close> and \<open>v\<close> and is the front of the list; the live
  nodes are the same ones, so no node was allocated; the size is unchanged; and \<^verbatim>\<open>get\<close> of
  the evicted key returns the not-found value. (What the call does when the insertion into
  the map finds no memory is the subject of C8.)
\<close>

theorem put_full_spec:
  assumes inv: "cache_inv ps (h, c)" and miss: "map_of (lru_cache_map c) k = None"
    and full: "size_cache (h, c) = capacity (h, c)"
  shows "\<exists>b victim h' c'.
           list_back (lru_list c) = Some b \<and> h b = Some victim \<and>
           map_of (lru_cache_map c) (node_key victim) = Some b \<and>
           put (Some r) True k v (h, c) = Returns () (h', c') \<and>
           lru_cache_map c' =
             AList.update k b (AList.delete (node_key victim) (lru_cache_map c)) \<and>
           map_of (lru_cache_map c') (node_key victim) = None \<and>
           map_of (lru_cache_map c') k = Some b \<and>
           (\<exists>n'. h' b = Some n' \<and> node_key n' = k \<and> node_value n' = v) \<and>
           dom h' = dom h \<and>
           list_front (lru_list c') = Some b \<and>
           cache_inv (b # butlast ps) (h', c') \<and>
           size_cache (h', c') = size_cache (h, c) \<and>
           get (node_key victim) (h', c') = Returns KEY_NOT_FOUND_RET_VAL (h', c')"
proof -
  from full have full': "list_size (lru_list c) = scast (m_capacity c)"
    by (simp add: size_cache_def capacity_def)
  from put_evict [OF inv miss full', of "Some r" v] obtain b victim h' c' where
    *: "list_back (lru_list c) = Some b" "h b = Some victim"
       "map_of (lru_cache_map c) (node_key victim) = Some b"
       "put (Some r) True k v (h, c) = Returns () (h', c')"
       "cache_inv (b # butlast ps) (h', c')"
       "lru_cache_map c' = AList.update k b (AList.delete (node_key victim) (lru_cache_map c))"
       "list_size (lru_list c') = list_size (lru_list c)"
       "same_payload (h(b \<mapsto> victim\<lparr>node_key := k, node_value := v\<rparr>)) h'"
    by blast
  from *(3) miss have ne: "node_key victim \<noteq> k" by auto
  then have gone: "map_of (lru_cache_map c') (node_key victim) = None"
    by (simp add: *(6) update_conv' delete_conv')
  have here: "map_of (lru_cache_map c') k = Some b"
    by (simp add: *(6) update_conv')
  from same_payload_live [OF *(8), of b] have
    new: "\<exists>n'. h' b = Some n' \<and> node_key n' = k \<and> node_value n' = v" by simp
  from same_payload_dom [OF *(8)] *(2) have dom: "dom h' = dom h" by auto
  from *(5) have fr: "list_front (lru_list c') = Some b" by (rule cache_inv_front)
  from gone have "get (node_key victim) (h', c') = Returns KEY_NOT_FOUND_RET_VAL (h', c')"
    by (simp add: get_def)
  with * gone here new dom fr show ?thesis
    by (intro exI [of _ b] exI [of _ victim] exI [of _ h'] exI [of _ c'])
       (simp add: size_cache_def)
qed

theorem put_full_spec_witness:
  "cache_inv [1, 0] (demo_heap, demo_cache 2) \<and>
   map_of (lru_cache_map (demo_cache 2)) 5 = None \<and>
   size_cache (demo_heap, demo_cache 2) = capacity (demo_heap, demo_cache 2) \<and>
   (\<exists>h' c' n'. put (Some 7) True 5 50 (demo_heap, demo_cache 2) = Returns () (h', c') \<and>
      lru_cache_map c' = [(2, 1), (5, 0)] \<and> h' 0 = Some n' \<and> node_key n' = 5 \<and>
      node_value n' = 50 \<and> cache_inv [0, 1] (h', c') \<and>
      get 1 (h', c') = Returns (- 1) (h', c'))"
proof -
  have m: "map_of (lru_cache_map (demo_cache 2)) 5 = None"
    by (simp add: demo_cache_def)
  have f: "size_cache (demo_heap, demo_cache 2) = capacity (demo_heap, demo_cache 2)"
    by (simp add: size_cache_def capacity_def demo_cache_def)
  have b: "list_back (lru_list (demo_cache 2)) = Some 0" 
    "lru_cache_map (demo_cache 2) = [(1, 0), (2, 1)]"
    by (simp_all add: demo_cache_def)
  have v: "demo_heap 0 = Some n \<Longrightarrow> node_key n = 1" for n
    by (auto simp: demo_heap_def)
  from put_full_spec [OF demo_inv m f, where r = 7 and v = 50] demo_inv m f b v
  show ?thesis by (fastforce simp: KEY_NOT_FOUND_RET_VAL_def AList.delete_eq)
qed

text \<open>
  What \<^verbatim>\<open>put\<close> does in a well-formed state, by path and by the outcome of its allocations:
  it throws when the allocation of the list node fails, with the state as it was, and also
  when the allocation inside the map fails, on the growth path and at full capacity alike;
  it returns in every other case, and its behaviour is always defined (lemma
  \<open>put_outcomes\<close>).
\<close>

lemma put_node_alloc_failure:
  assumes "map_of (lru_cache_map c) k = None" and "size_cache (h, c) \<noteq> capacity (h, c)"
  shows "put None m k v (h, c) = Throws std_exception (h, c)"
  using assms by (intro put_throw) (simp_all add: size_cache_def capacity_def)

text \<open>
  C8. The claim: \<^verbatim>\<open>put\<close> can fail only on the growth path, a failure leaves the state of the
  cache exactly as it was, and \<^verbatim>\<open>put\<close> at full capacity never fails. The code: the last
  line of \<^verbatim>\<open>put\<close>, \<^verbatim>\<open>_lru_cache_map[key] = new_node\<close>, allocates inside the map, outside
  the \<^verbatim>\<open>try\<close> block and after the list has been changed. On the two-entry cache of
  capacity 2, \<^verbatim>\<open>put(5, 50)\<close> with that allocation failing throws \<^verbatim>\<open>std::bad_alloc\<close> at full
  capacity: key 1 has been erased, its node holds 5 and 50 and is the front, and key 5 is
  not in the index. On the same cache with capacity 3, \<^verbatim>\<open>put(5, 50)\<close> throws on the growth
  path after the new node was linked: the list counts 3 entries and the index 2. Neither
  state is well formed.
\<close>

theorem put_throws_at_map_insert:
  "cache_inv [1, 0] (demo_heap, demo_cache 2) \<and>
   size_cache (demo_heap, demo_cache 2) = capacity (demo_heap, demo_cache 2) \<and>
   (\<exists>h' c' n. put (Some 7) False 5 50 (demo_heap, demo_cache 2) = Throws bad_alloc (h', c') \<and>
      lru_cache_map c' = [(2, 1)] \<and> h' 0 = Some n \<and> node_key n = 5 \<and> node_value n = 50 \<and>
      list_front (lru_list c') = Some 0 \<and> list_size (lru_list c') = 2 \<and>
      (\<forall>ps. \<not> cache_inv ps (h', c'))) \<and>
   cache_inv [1, 0] (demo_heap, demo_cache 3) \<and>
   size_cache (demo_heap, demo_cache 3) \<noteq> capacity (demo_heap, demo_cache 3) \<and>
   (\<exists>h' c' n. put (Some 7) False 5 50 (demo_heap, demo_cache 3) = Throws bad_alloc (h', c') \<and>
      lru_cache_map c' = [(1, 0), (2, 1)] \<and> h' 7 = Some n \<and> node_key n = 5 \<and>
      list_front (lru_list c') = Some 7 \<and> list_size (lru_list c') = 3 \<and>
      (\<forall>ps. \<not> cache_inv ps (h', c')))"
proof -
  have e: "\<And>ps :: addr list. length ps = Suc 0 \<Longrightarrow> \<exists>x. ps = [x]"
    by (metis length_0_conv length_Suc_conv)
  show ?thesis
    by (auto simp: demo_inv demo_inv3 exec_defs inv_defs demo_heap_def demo_cache_def dest!: e)
qed

section \<open>The scenario of \<^verbatim>\<open>TEST_LOGGED\<close>\<close>

text \<open>
  C4. On a cache of capacity 2, with every allocation succeeding (the first two nodes at any
  two distinct free addresses \<open>p\<close> and \<open>q\<close>), the sequence put(1,1); put(2,2); get(1);
  put(3,3); get(2); put(4,4); get(1); get(3); get(4) gives: get(1) returns 1; put(3,3) takes
  key 2 out of the index and reuses its node \<open>q\<close>; get(2) returns the not-found value;
  put(4,4) takes key 1 out and reuses its node \<open>p\<close>; then get(1) returns not-found, get(3)
  returns 3 and get(4) returns 4. The two evicting calls ask for no list node: the addresses
  \<open>r\<close> and \<open>s\<close> that the allocator would give them are never used.
\<close>

theorem TEST_LOGGED_capacity_2:
  assumes "h p = None" "h q = None" "p \<noteq> q"
  shows "\<exists>c w3 w4 w5 w6 w9.
     LRUCache_ctor 2 = Inr c \<and>
     run [Put (Some p) True 1 1, Put (Some q) True 2 2, Get 1] (h, c) = Some ([1], w3) \<and>
     run [Put (Some r) True 3 3] w3 = Some ([], w4) \<and>
     lru_cache_map (snd w4) = [(1, p), (3, q)] \<and>
     run [Get 2] w4 = Some ([KEY_NOT_FOUND_RET_VAL], w5) \<and>
     run [Put (Some s) True 4 4] w5 = Some ([], w6) \<and>
     lru_cache_map (snd w6) = [(3, q), (4, p)] \<and>
     run [Get 1, Get 3, Get 4] w6 = Some ([KEY_NOT_FOUND_RET_VAL, 3, 4], w9) \<and>
     TEST_LOGGED (Some p) True (Some q) True (Some r) True (Some s) True (h, c) =
       Some ([1, KEY_NOT_FOUND_RET_VAL, KEY_NOT_FOUND_RET_VAL, 3, 4], w9)"
  using assms by (simp add: exec_defs word_sle_eq TEST_LOGGED_def)

theorem TEST_LOGGED_capacity_2_witness:
  "(Map.empty :: heap) 0 = None \<and> (Map.empty :: heap) 1 = None \<and> (0 :: nat) \<noteq> 1 \<and>
   (\<exists>c w. LRUCache_ctor 2 = Inr c \<and>
      TEST_LOGGED (Some 0) True (Some 1) True (Some 2) True (Some 3) True (Map.empty, c) =
        Some ([1, - 1, - 1, 3, 4], w))"
  using TEST_LOGGED_capacity_2 [where h = Map.empty and p = 0 and q = 1 and r = 2 and s = 3]
  by (auto simp: KEY_NOT_FOUND_RET_VAL_def)

section \<open>The not-found value\<close>

text \<open>
  C10. The value returned for a missing key is the integer -1, and a key stored with the
  value -1 cannot be told from a missing one: in a cache built by \<^verbatim>\<open>put(7, -1)\<close>, the key 7
  is in the index and the key 8 is not, and \<^verbatim>\<open>get\<close> returns -1 for both.
\<close>

theorem get_sentinel_ambiguous:
  "KEY_NOT_FOUND_RET_VAL = - 1 \<and>
   (\<exists>c w. LRUCache_ctor 2 = Inr c \<and> put (Some 0) True 7 (- 1) (Map.empty, c) = Returns () w \<and>
      map_of (lru_cache_map (snd w)) 7 = Some 0 \<and> map_of (lru_cache_map (snd w)) 8 = None \<and>
      get 7 w = Returns (- 1) w \<and> get 8 w = Returns (- 1) w)"
  by (simp add: exec_defs word_sle_eq)

section \<open>\<^verbatim>\<open>clear\<close>\<close>

text \<open>
  On a well-formed state \<^verbatim>\<open>clear\<close> returns, frees every node of the list and empties the
  index. It assigns nothing to the list object: its size and its two end pointers stay as
  they were.
\<close>

lemma clear_spec:
  assumes inv: "cache_inv ps (h, c)"
  shows "\<exists>h' c'. clear (h, c) = Returns () (h', c') \<and>
           (\<forall>q. h' q = (if q \<in> set ps then None else h q)) \<and>
           lru_cache_map c' = [] \<and> lru_list c' = lru_list c \<and>
           capacity (h', c') = capacity (h, c) \<and> size_cache (h', c') = size_cache (h, c)"
  using clear_ok [OF inv] by (simp add: capacity_def size_cache_def)

text \<open>
  C1. The claim: after \<^verbatim>\<open>clear()\<close> every entry is released, the index is empty, \<^verbatim>\<open>size()\<close>
  returns 0 and \<^verbatim>\<open>capacity()\<close> is unchanged. The code: on a cache of capacity 2 that holds one
  entry, \<^verbatim>\<open>clear()\<close> returns, the node is freed, the index is empty and the capacity is what
  it was, but \<^verbatim>\<open>size()\<close> still returns 1.
\<close>

theorem clear_keeps_list_size:
  "\<exists>c w1 w2. LRUCache_ctor 2 = Inr c \<and> put (Some 0) True 1 1 (Map.empty, c) = Returns () w1 \<and>
     size_cache w1 = 1 \<and> clear w1 = Returns () w2 \<and> lru_cache_map (snd w2) = [] \<and>
     fst w2 0 = None \<and> capacity w2 = capacity w1 \<and> size_cache w2 = 1"
  by (simp add: exec_defs word_sle_eq)

text \<open>
  C2. The claim: the global invariant holds after every public operation, \<^verbatim>\<open>clear\<close>
  included. The code: on the same cache, which is well formed before the call, \<^verbatim>\<open>clear()\<close>
  leaves an index with no key and a list that still counts one entry and whose front and
  back point to the freed node; the state is well formed for no recency order, and the next
  \<^verbatim>\<open>put\<close> of a new key writes through the dangling front pointer.
\<close>

theorem clear_breaks_invariant:
  "\<exists>c w1 w2. LRUCache_ctor 2 = Inr c \<and> put (Some 0) True 1 1 (Map.empty, c) = Returns () w1 \<and>
     cache_inv [0] w1 \<and> clear w1 = Returns () w2 \<and>
     length (lru_cache_map (snd w2)) = 0 \<and> unat (list_size (lru_list (snd w2))) = 1 \<and>
     list_front (lru_list (snd w2)) = Some 0 \<and> list_back (lru_list (snd w2)) = Some 0 \<and>
     fst w2 0 = None \<and> (\<forall>ps. \<not> cache_inv ps w2) \<and>
     put (Some 1) True 2 2 w2 = Undefined"
  by (simp add: exec_defs word_sle_eq inv_defs)

end
